theory Spec2Isabelle
  imports Main "HOL-Library.Multiset" "HOL-Library.AList"
begin

section \<open>Texts\<close>

text \<open>
  A Python \<open>str\<close> is modelled as a \<open>string\<close>, each \<open>char\<close> standing for the code point
  with the same number (U+0000 to U+00FF). The three library operations that
  \<open>task_2.py\<close> applies to texts are written out below as CPython defines them on
  these code points.
\<close>

subsection \<open>\<open>string.punctuation\<close>, \<open>str.maketrans\<close>, \<open>str.translate\<close>\<close>

text \<open>
  \<open>string.punctuation\<close> is the constant
  \<^verbatim>\<open>!"#$%&'()*+,-./:;<=>?@[\]^_`{|}~\<close> (32 characters).
\<close>

definition punctuation :: string where
  "punctuation =
     [CHR 0x21, CHR 0x22, CHR 0x23, CHR 0x24, CHR 0x25, CHR 0x26, CHR 0x27, CHR 0x28,
      CHR 0x29, CHR 0x2A, CHR 0x2B, CHR 0x2C, CHR 0x2D, CHR 0x2E, CHR 0x2F,
      CHR 0x3A, CHR 0x3B, CHR 0x3C, CHR 0x3D, CHR 0x3E, CHR 0x3F, CHR 0x40,
      CHR 0x5B, CHR 0x5C, CHR 0x5D, CHR 0x5E, CHR 0x5F, CHR 0x60,
      CHR 0x7B, CHR 0x7C, CHR 0x7D, CHR 0x7E]"

text \<open>
  A translation table maps a character to its replacement, or to \<open>None\<close> for
  deletion; a character without an entry is kept. \<open>str.maketrans(x, y, z)\<close> first
  enters \<open>x[i] \<mapsto> y[i]\<close> and then \<open>c \<mapsto> None\<close> for every \<open>c\<close> of \<open>z\<close> (a later
  entry replaces an earlier one). It raises when \<open>x\<close> and \<open>y\<close> differ in length;
  the only call in the program passes two empty strings, so the table is given
  for arguments of equal length.
\<close>

type_synonym trans_table = "char \<rightharpoonup> char option"

definition str_maketrans :: "string \<Rightarrow> string \<Rightarrow> string \<Rightarrow> trans_table" where
  "str_maketrans x y z =
     fold (\<lambda>c t. t(c \<mapsto> None)) z
       (fold (\<lambda>(a, b) t. t(a \<mapsto> Some b)) (zip x y) Map.empty)"

fun str_translate :: "string \<Rightarrow> trans_table \<Rightarrow> string" where
  "str_translate [] t = []"
| "str_translate (c # cs) t =
     (case t c of
        None \<Rightarrow> c # str_translate cs t
      | Some None \<Rightarrow> str_translate cs t
      | Some (Some d) \<Rightarrow> d # str_translate cs t)"

subsection \<open>\<open>str.split\<close> without arguments\<close>

text \<open>
  The characters below U+0100 for which \<open>str.isspace\<close> holds: U+0009 to U+000D,
  U+001C to U+001F, the space, U+0085 and U+00A0.
\<close>

definition whitespace :: string where
  "whitespace =
     [CHR 0x09, CHR 0x0A, CHR 0x0B, CHR 0x0C, CHR 0x0D,
      CHR 0x1C, CHR 0x1D, CHR 0x1E, CHR 0x1F, CHR 0x20, CHR 0x85, CHR 0xA0]"

definition isspace :: "char \<Rightarrow> bool" where
  "isspace c = (c \<in> set whitespace)"

text \<open>
  \<open>text.split()\<close> scans from the left: it skips a run of whitespace, stops at the
  end of the text, and otherwise takes the characters up to the next whitespace
  as one word.
\<close>

function str_split :: "string \<Rightarrow> string list" where
  "str_split s =
     (let s1 = dropWhile isspace s
      in if s1 = [] then []
         else takeWhile (\<lambda>c. \<not> isspace c) s1 # str_split (dropWhile (\<lambda>c. \<not> isspace c) s1))"
  by pat_completeness auto

termination
proof (relation "measure length")
  show "wf (measure length)" by simp
next
  fix s s1 :: string
  assume s1: "s1 = dropWhile isspace s" and ne: "s1 \<noteq> []"
  from ne obtain c cs where c: "s1 = c # cs" by (cases s1) auto
  with s1 have "\<not> isspace c"
    by (metis hd_dropWhile list.sel(1) ne)
  with c have "length (dropWhile (\<lambda>c. \<not> isspace c) s1) \<le> length cs"
    by (simp add: length_dropWhile_le)
  also have "length cs < length s1" using c by simp
  also have "length s1 \<le> length s" using s1 by (simp add: length_dropWhile_le)
  finally show "(dropWhile (\<lambda>c. \<not> isspace c) s1, s) \<in> measure length" by simp
qed

declare str_split.simps [simp del]

subsection \<open>\<open>str.lower\<close>\<close>

text \<open>
  Below U+0100 the characters with a different lowercase form are \<open>A\<close> to \<open>Z\<close> and
  U+00C0 to U+00DE without U+00D7; each maps to the character 32 places later.
\<close>

definition uppercase :: string where
  "uppercase = ''ABCDEFGHIJKLMNOPQRSTUVWXYZ'' @
     [CHR 0xC0, CHR 0xC1, CHR 0xC2, CHR 0xC3, CHR 0xC4, CHR 0xC5, CHR 0xC6, CHR 0xC7,
      CHR 0xC8, CHR 0xC9, CHR 0xCA, CHR 0xCB, CHR 0xCC, CHR 0xCD, CHR 0xCE, CHR 0xCF,
      CHR 0xD0, CHR 0xD1, CHR 0xD2, CHR 0xD3, CHR 0xD4, CHR 0xD5, CHR 0xD6,
      CHR 0xD8, CHR 0xD9, CHR 0xDA, CHR 0xDB, CHR 0xDC, CHR 0xDD, CHR 0xDE]"

definition lowercase :: string where
  "lowercase = ''abcdefghijklmnopqrstuvwxyz'' @
     [CHR 0xE0, CHR 0xE1, CHR 0xE2, CHR 0xE3, CHR 0xE4, CHR 0xE5, CHR 0xE6, CHR 0xE7,
      CHR 0xE8, CHR 0xE9, CHR 0xEA, CHR 0xEB, CHR 0xEC, CHR 0xED, CHR 0xEE, CHR 0xEF,
      CHR 0xF0, CHR 0xF1, CHR 0xF2, CHR 0xF3, CHR 0xF4, CHR 0xF5, CHR 0xF6,
      CHR 0xF8, CHR 0xF9, CHR 0xFA, CHR 0xFB, CHR 0xFC, CHR 0xFD, CHR 0xFE]"

definition str_lower :: "string \<Rightarrow> string" where
  "str_lower s =
     map (\<lambda>c. case map_of (zip uppercase lowercase) c of None \<Rightarrow> c | Some d \<Rightarrow> d) s"

text \<open>\<open>string.digits\<close>.\<close>

definition digits :: string where
  "digits = ''0123456789''"

section \<open>\<open>TextProcessor\<close>\<close>

text \<open>
  \<open>remove_punctuation\<close> returns
  \<open>text.translate(str.maketrans("", "", string.punctuation))\<close>.
\<close>

definition remove_punctuation :: "string \<Rightarrow> string" where
  "remove_punctuation text = str_translate text (str_maketrans [] [] punctuation)"

text \<open>\<open>map_function\<close> returns \<open>word.lower(), 1\<close>.\<close>

definition map_function :: "string \<Rightarrow> string \<times> int" where
  "map_function word = (str_lower word, 1)"

subsection \<open>\<open>Counter\<close>\<close>

text \<open>
  A \<open>Counter\<close> is a dictionary, and a dictionary keeps its keys in the order of
  their first insertion: it is an association list with distinct keys. Reading a
  missing key gives 0 and stores nothing; assigning to a present key keeps its
  place, assigning to a new key appends it.
\<close>

type_synonym counter = "(string \<times> int) list"

definition counter_get :: "counter \<Rightarrow> string \<Rightarrow> int" where
  "counter_get c w = (case map_of c w of None \<Rightarrow> 0 | Some v \<Rightarrow> v)"

definition counter_set :: "counter \<Rightarrow> string \<Rightarrow> int \<Rightarrow> counter" where
  "counter_set c w v = AList.update w v c"

text \<open>
  \<open>shuffle_and_reduce\<close> starts from \<open>Counter()\<close> and runs
  \<open>result[word] += count\<close> for each pair \<open>(word, count)\<close> of \<open>mapped_values\<close>, in
  their order (\<open>cnt\<close> below is the \<open>count\<close> of the source).
\<close>

fun reduce_loop :: "(string \<times> int) list \<Rightarrow> counter \<Rightarrow> counter" where
  "reduce_loop [] result = result"
| "reduce_loop ((word, cnt) # rest) result =
     reduce_loop rest (counter_set result word (counter_get result word + cnt))"

definition shuffle_and_reduce :: "(string \<times> int) list \<Rightarrow> counter" where
  "shuffle_and_reduce mapped_values = reduce_loop mapped_values []"

text \<open>The total of the counts that a sequence of pairs holds for a word.\<close>

definition total :: "(string \<times> int) list \<Rightarrow> string \<Rightarrow> int" where
  "total xs w = sum_list (map snd (filter (\<lambda>p. fst p = w) xs))"

subsection \<open>\<open>ThreadPoolExecutor.map\<close>\<close>

text \<open>
  \<open>executor.map(fn, items)\<close> submits one task per item, in order, and keeps one
  future per task. The worker threads of the pool, however many there are, finish
  the tasks in some order: the completion order \<open>sched\<close>, a list of task numbers.
  Finishing task \<open>i\<close> stores \<open>fn(items[i])\<close> in future \<open>i\<close>. Leaving the \<open>with\<close>
  block waits for the pool, and the iterator that \<open>map\<close> returned then yields the
  results of the futures in the order of submission; a future that no worker
  ever finished has no result (\<open>None\<close>), and reading it would never return. A pool
  of one worker finishes the tasks in the order \<open>[0..<length items]\<close>.
\<close>

definition run_task :: "('a \<Rightarrow> 'b) \<Rightarrow> 'a list \<Rightarrow> nat \<Rightarrow> (nat \<rightharpoonup> 'b) \<Rightarrow> (nat \<rightharpoonup> 'b)" where
  "run_task fn items i futures =
     (if i < length items then futures(i \<mapsto> fn (items ! i)) else futures)"

definition executor_map :: "nat list \<Rightarrow> ('a \<Rightarrow> 'b) \<Rightarrow> 'a list \<Rightarrow> 'b option list" where
  "executor_map sched fn items =
     (let futures = fold (run_task fn items) sched Map.empty
      in map futures [0..<length items])"

text \<open>
  \<open>process_text\<close>: strip the punctuation, split, map the words on the pool, reduce.
  The result is \<open>None\<close> when the reduction would wait for a result for ever.
\<close>

definition process_text :: "nat list \<Rightarrow> string \<Rightarrow> counter option" where
  "process_text sched text =
     (let text1 = remove_punctuation text;
          words = str_split text1;
          mapped_values = executor_map sched map_function words
      in map_option shuffle_and_reduce (those mapped_values))"

text \<open>
  The map and reduce phases without a pool, one word after the other; the
  pipeline is compared with it below.
\<close>

definition sequential_map_reduce :: "string list \<Rightarrow> counter" where
  "sequential_map_reduce words = shuffle_and_reduce (map map_function words)"

section \<open>\<open>DataVisualizer\<close>\<close>

text \<open>
  \<open>Counter.most_common(n)\<close> with an integer \<open>n\<close> is \<open>heapq.nlargest(n, items, key=count)\<close>,
  that is \<open>sorted(items, key=count, reverse=True)[:n]\<close> for positive \<open>n\<close> and the empty
  list otherwise. The sort is stable: entries of equal count stay in the order of
  the dictionary.
\<close>

definition most_common :: "counter \<Rightarrow> int \<Rightarrow> (string \<times> int) list" where
  "most_common c n =
     (if n \<le> 0 then [] else take (nat n) (sort_key (\<lambda>(w, v). - v) c))"

text \<open>
  \<open>zip(*rows)\<close> transposes: from rows of two components it yields the tuple of the
  first and the tuple of the second components, and nothing when there is no row.
  The assignment \<open>words, counts = ...\<close> needs exactly two values and raises
  \<open>ValueError\<close> otherwise.
\<close>

datatype error = ValueError

datatype cell = Word string | Count int

definition zip_star :: "(string \<times> int) list \<Rightarrow> cell list list" where
  "zip_star rows =
     (if rows = [] then [] else [map (\<lambda>r. Word (fst r)) rows, map (\<lambda>r. Count (snd r)) rows])"

definition unpack2 :: "'a list \<Rightarrow> error + 'a \<times> 'a" where
  "unpack2 vs = (case vs of [a, b] \<Rightarrow> Inr (a, b) | _ \<Rightarrow> Inl ValueError)"

text \<open>The chart that \<open>visualize\<close> draws: the bar lengths and the labels of the bars.\<close>

record chart =
  barh :: "cell list"
  yticks :: "cell list"
  title :: string

definition visualize :: "counter \<Rightarrow> int \<Rightarrow> error + chart" where
  "visualize word_counts top_n =
     (let top_words = most_common word_counts top_n
      in case unpack2 (zip_star top_words) of
           Inl e \<Rightarrow> Inl e
         | Inr (words, counts) \<Rightarrow>
             Inr \<lparr>barh = counts, yticks = words, title = ''Top 10 Most Frequent Words''\<rparr>)"

section \<open>\<open>TextFetcher\<close> and the script\<close>

text \<open>
  The network is a parameter: what \<open>requests.get(url)\<close> does. It raises a
  \<open>RequestException\<close> or returns a response with a status code and a text.
  \<open>response.raise_for_status()\<close> raises \<open>HTTPError\<close>, a \<open>RequestException\<close>, for the
  status codes from 400 to 599 and returns for every other code.
\<close>

datatype request_exception = RequestException string | HTTPError nat

datatype response = Response (status_code: nat) (response_text: string)

type_synonym network = "string \<Rightarrow> request_exception + response"

definition raise_for_status :: "response \<Rightarrow> request_exception + unit" where
  "raise_for_status r =
     (if 400 \<le> status_code r \<and> status_code r < 600 then Inl (HTTPError (status_code r))
      else Inr ())"

text \<open>What a run does that can be seen from outside, in order.\<close>

datatype event =
    Log_error_fetching string request_exception
  | Log_failed_to_proceed
  | Call_process_text string
  | Call_visualize counter int

definition fetch :: "network \<Rightarrow> string \<Rightarrow> string option \<times> event list" where
  "fetch get url =
     (case get url of
        Inl e \<Rightarrow> (None, [Log_error_fetching url e])
      | Inr response \<Rightarrow>
          (case raise_for_status response of
             Inl e \<Rightarrow> (None, [Log_error_fetching url e])
           | Inr _ \<Rightarrow> (Some (response_text response), [])))"

definition URL :: string where
  "URL = ''https://gutenberg.net.au/ebooks01/0100021.txt''"

text \<open>
  The body of the script for a \<open>url\<close> (the script itself runs it at \<open>URL\<close>). A text
  is true when it is neither \<open>None\<close> nor empty. The run ends by showing a chart,
  by an exception that nothing catches, by the second log line, or not at all.
\<close>

datatype ending = Shown chart | Uncaught error | Not_proceeded | Never

definition main_block :: "network \<Rightarrow> nat list \<Rightarrow> string \<Rightarrow> event list \<times> ending" where
  "main_block get sched url =
     (case fetch get url of (text, log) \<Rightarrow>
        (case text of
           None \<Rightarrow> (log @ [Log_failed_to_proceed], Not_proceeded)
         | Some t \<Rightarrow>
             if t \<noteq> [] then
               (case process_text sched t of
                  None \<Rightarrow> (log @ [Call_process_text t], Never)
                | Some word_counts \<Rightarrow>
                    (log @ [Call_process_text t, Call_visualize word_counts 10],
                     case visualize word_counts 10 of
                       Inl e \<Rightarrow> Uncaught e
                     | Inr c \<Rightarrow> Shown c))
             else (log @ [Log_failed_to_proceed], Not_proceeded)))"

text \<open>
  The events in which the pipeline or the visualizer is invoked.
\<close>

fun is_call :: "event \<Rightarrow> bool" where
  "is_call (Call_process_text t) = True"
| "is_call (Call_visualize c n) = True"
| "is_call e = False"

text \<open>
  Two readings of a failed request. \<open>request_fails\<close>: \<open>requests.get\<close> raises, or
  \<open>raise_for_status\<close> does (status 400 to 599). \<open>non_2xx_failure\<close>: \<open>requests.get\<close>
  raises, or the status is not one of 200 to 299.
\<close>

definition request_fails :: "request_exception + response \<Rightarrow> bool" where
  "request_fails r =
     (case r of
        Inl e \<Rightarrow> True
      | Inr response \<Rightarrow> 400 \<le> status_code response \<and> status_code response < 600)"

definition non_2xx_failure :: "request_exception + response \<Rightarrow> bool" where
  "non_2xx_failure r =
     (case r of
        Inl e \<Rightarrow> True
      | Inr response \<Rightarrow> \<not> (200 \<le> status_code response \<and> status_code response < 300))"

section \<open>\<open>FileOrganizer\<close>\<close>

subsection \<open>Paths and the file system\<close>

text \<open>
  A path is the list of its components, the root being \<open>[]\<close>. The file system
  is the list of its entries in the order in which the system enumerates them:
  directories, regular files with their content, and special entries. A special
  entry is a named pipe; for \<open>exists\<close>, \<open>is_dir\<close> and \<open>mkdir\<close> it stands for every
  entry that is neither a directory nor a regular file. Symbolic links are not
  part of the model.
\<close>

type_synonym path = "string list"

datatype node = Dir | File string | Special

type_synonym filesystem = "(path \<times> node) list"

datatype os_error =
    FileNotFoundError
  | FileExistsError
  | NotADirectoryError
  | IsADirectoryError
  | SpecialFileError

text \<open>
  \<open>Path.name\<close> is the last component. \<open>Path.suffix\<close> is the part of the name from
  its last dot on, when that dot is neither the first nor the last character of
  the name, and empty otherwise. \<open>str.rfind\<close> gives the highest index of a
  character, or -1.
\<close>

definition path_name :: "path \<Rightarrow> string" where
  "path_name p = (if p = [] then [] else last p)"

definition rfind :: "char \<Rightarrow> string \<Rightarrow> int" where
  "rfind c s =
     (if c \<in> set s then int (length s) - 1 - int (length (takeWhile (\<lambda>x. x \<noteq> c) (rev s)))
      else - 1)"

definition suffix :: "path \<Rightarrow> string" where
  "suffix p =
     (let name = path_name p; i = rfind (CHR ''.'') name
      in if 0 < i \<and> i < int (length name) - 1 then drop (nat i) name else [])"

text \<open>\<open>p / s\<close> appends the component \<open>s\<close>; joining the empty string changes nothing.\<close>

definition joinpath :: "path \<Rightarrow> string \<Rightarrow> path" where
  "joinpath p s = (if s = [] then p else p @ [s])"

definition exists_path :: "filesystem \<Rightarrow> path \<Rightarrow> bool" where
  "exists_path fs p = (map_of fs p \<noteq> None)"

text \<open>
  \<open>folder.rglob("*.*")\<close> walks the tree below \<open>folder\<close>: it yields the entries of a
  directory whose name contains a dot, files and directories alike, in the order
  of the directory, and then does the same for each subdirectory in turn. A
  folder that is no directory yields nothing.
\<close>

definition scandir :: "filesystem \<Rightarrow> path \<Rightarrow> path list" where
  "scandir fs d = filter (\<lambda>p. p \<noteq> [] \<and> butlast p = d) (map fst fs)"

definition below :: "path \<Rightarrow> path \<Rightarrow> bool" where
  "below d p = (length d < length p \<and> take (length d) p = d)"

function rglob_walk :: "filesystem \<Rightarrow> path \<Rightarrow> path list" where
  "rglob_walk fs d =
     filter (\<lambda>p. CHR ''.'' \<in> set (path_name p)) (scandir fs d)
     @ concat (map (rglob_walk fs) (filter (\<lambda>p. map_of fs p = Some Dir) (scandir fs d)))"
  by pat_completeness auto

termination
proof (relation "measure (\<lambda>(fs, d). length (filter (below d) (map fst fs)))")
  show "wf (measure (\<lambda>(fs, d). length (filter (below d) (map fst fs))))" by simp
next
  fix fs :: filesystem and d c :: path
  assume "c \<in> set (filter (\<lambda>p. map_of fs p = Some Dir) (scandir fs d))"
  then have c: "c \<in> set (map fst fs)" "c \<noteq> []" "butlast c = d"
    by (simp_all add: scandir_def)
  have len: "length d = length c - 1" using c(3) by (metis length_butlast)
  then have "length d < length c" using c(2) by (cases c) auto
  moreover have "take (length d) c = d" using c(3) len by (metis butlast_conv_take)
  ultimately have dc: "below d c" by (simp add: below_def)
  have sub: "below d p" if cp: "below c p" for p
  proof -
    have "take (length d) p = take (length d) (take (length c) p)"
      using dc by (simp add: below_def min_def)
    also have "\<dots> = d" using dc cp by (simp add: below_def)
    finally show ?thesis using dc cp by (simp add: below_def)
  qed
  have "filter (below c) (map fst fs) = filter (below c) (filter (below d) (map fst fs))"
  proof -
    have "\<And>p. (below d p \<and> below c p) = below c p" using sub by blast
    then show ?thesis by simp
  qed
  moreover have "c \<in> set (filter (below d) (map fst fs))" using c(1) dc by simp
  moreover have "\<not> below c c" by (simp add: below_def)
  ultimately have "length (filter (below c) (map fst fs)) < length (filter (below d) (map fst fs))"
    by (metis length_filter_less)
  then show "((fs, c), (fs, d)) \<in> measure (\<lambda>(fs, d). length (filter (below d) (map fst fs)))"
    by simp
qed

declare rglob_walk.simps [simp del]

definition rglob :: "filesystem \<Rightarrow> path \<Rightarrow> path list" where
  "rglob fs folder = (if map_of fs folder = Some Dir then rglob_walk fs folder else [])"

text \<open>
  \<open>p.mkdir(exist_ok=True)\<close> accepts an existing directory, refuses every other
  existing entry, and creates \<open>p\<close> only inside an existing directory (there is no
  \<open>parents=True\<close>).
\<close>

definition mkdir_exist_ok :: "filesystem \<Rightarrow> path \<Rightarrow> os_error + filesystem" where
  "mkdir_exist_ok fs p =
     (case map_of fs p of
        Some Dir \<Rightarrow> Inr fs
      | Some (File _) \<Rightarrow> Inl FileExistsError
      | Some Special \<Rightarrow> Inl FileExistsError
      | None \<Rightarrow>
          (case map_of fs (butlast p) of
             Some Dir \<Rightarrow> Inr (AList.update p Dir fs)
           | Some (File _) \<Rightarrow> Inl NotADirectoryError
           | Some Special \<Rightarrow> Inl NotADirectoryError
           | None \<Rightarrow> Inl FileNotFoundError))"

text \<open>
  \<open>shutil.copy(src, dst)\<close> copies into \<open>dst\<close> under the name of \<open>src\<close> when \<open>dst\<close> is
  a directory. It refuses a named pipe on either side; it then reads the regular
  file \<open>src\<close> and writes its content to the target, replacing what is there.
\<close>

definition shutil_copy :: "filesystem \<Rightarrow> path \<Rightarrow> path \<Rightarrow> os_error + filesystem" where
  "shutil_copy fs src dst =
     (let target = (if map_of fs dst = Some Dir then joinpath dst (path_name src) else dst)
      in if map_of fs src = Some Special \<or> map_of fs target = Some Special
         then Inl SpecialFileError
         else
           (case map_of fs src of
              None \<Rightarrow> Inl FileNotFoundError
            | Some Dir \<Rightarrow> Inl IsADirectoryError
            | Some Special \<Rightarrow> Inl SpecialFileError
            | Some (File content) \<Rightarrow>
                (case map_of fs target of
                   Some Dir \<Rightarrow> Inl IsADirectoryError
                 | _ \<Rightarrow>
                   (case map_of fs (butlast target) of
                      Some Dir \<Rightarrow> Inr (AList.update target (File content) fs)
                    | Some (File _) \<Rightarrow> Inl NotADirectoryError
                    | Some Special \<Rightarrow> Inl NotADirectoryError
                    | None \<Rightarrow> Inl FileNotFoundError))))"

subsection \<open>The organizer\<close>

record file_organizer =
  source_folder :: path
  output_folder :: path

datatype log_record =
    Info_copied path path
  | Warning_exists path
  | Error_copying path os_error

text \<open>
  \<open>copy_file\<close> catches every exception and logs it; the state is the file system
  and the log.
\<close>

definition copy_file ::
  "file_organizer \<Rightarrow> path \<Rightarrow> filesystem \<times> log_record list \<Rightarrow> filesystem \<times> log_record list"
  where
  "copy_file self file st =
     (let fs = fst st; log = snd st;
          extension = drop 1 (suffix file);
          dest_folder = joinpath (output_folder self) extension
      in case mkdir_exist_ok fs dest_folder of
           Inl e \<Rightarrow> (fs, log @ [Error_copying file e])
         | Inr fs1 \<Rightarrow>
             (let dest_file = joinpath dest_folder (path_name file)
              in if \<not> exists_path fs1 dest_file then
                   (case shutil_copy fs1 file dest_file of
                      Inl e \<Rightarrow> (fs1, log @ [Error_copying file e])
                    | Inr fs2 \<Rightarrow> (fs2, log @ [Info_copied file dest_file]))
                 else (fs1, log @ [Warning_exists dest_file])))"

text \<open>The folder and the file that \<open>copy_file\<close> computes as the destination of a file.\<close>

definition dest_folder_of :: "file_organizer \<Rightarrow> path \<Rightarrow> path" where
  "dest_folder_of self file = joinpath (output_folder self) (drop 1 (suffix file))"

definition dest_file_of :: "file_organizer \<Rightarrow> path \<Rightarrow> path" where
  "dest_file_of self file = joinpath (dest_folder_of self file) (path_name file)"

text \<open>
  \<open>read_folder\<close> lists the folder first and then copies the listed entries one
  after the other, each \<open>await\<close> ending before the next begins.
\<close>

definition read_folder ::
  "file_organizer \<Rightarrow> path \<Rightarrow> filesystem \<Rightarrow> filesystem \<times> log_record list"
  where
  "read_folder self folder fs =
     (let files = rglob fs folder
      in fold (copy_file self) files (fs, []))"

text \<open>
  \<open>main\<close> builds the organizer from the two command line arguments and reads the
  source folder.
\<close>

definition main :: "path \<Rightarrow> path \<Rightarrow> filesystem \<Rightarrow> filesystem \<times> log_record list" where
  "main source dest fs =
     (let organizer = \<lparr>source_folder = source, output_folder = dest\<rparr>
      in read_folder organizer (source_folder organizer) fs)"

text \<open>
  The file system that \<open>main\<close> has made when it comes to the entry number \<open>i\<close> of
  its listing: the first \<open>i\<close> entries have had their turn.
\<close>

definition fs_at_turn :: "path \<Rightarrow> path \<Rightarrow> filesystem \<Rightarrow> nat \<Rightarrow> filesystem" where
  "fs_at_turn source dest fs i =
     fst (fold (copy_file \<lparr>source_folder = source, output_folder = dest\<rparr>)
            (take i (rglob fs source)) (fs, []))"

subsection \<open>Example trees\<close>

text \<open>
  A source folder with two files of the same name; one with a file whose name
  has no dot; one without the destination folder; two where the place of the
  folder of the extension is taken, by a regular file and by a named pipe.
\<close>

definition fs_same_name :: filesystem where
  "fs_same_name =
     [([], Dir), ([''src''], Dir), ([''src'', ''a.txt''], File ''hello''),
      ([''src'', ''sub''], Dir), ([''src'', ''sub'', ''a.txt''], File ''other''),
      ([''dest''], Dir)]"

definition fs_readme :: filesystem where
  "fs_readme =
     [([], Dir), ([''src''], Dir), ([''src'', ''README''], File ''hello''), ([''dest''], Dir)]"

definition fs_no_dest :: filesystem where
  "fs_no_dest = [([], Dir), ([''src''], Dir), ([''src'', ''a.txt''], File ''hello'')]"

definition fs_txt_taken :: filesystem where
  "fs_txt_taken =
     [([], Dir), ([''src''], Dir), ([''src'', ''a.txt''], File ''hello''), ([''dest''], Dir),
      ([''dest'', ''txt''], File ''x'')]"

definition fs_txt_pipe :: filesystem where
  "fs_txt_pipe =
     [([], Dir), ([''src''], Dir), ([''src'', ''a.txt''], File ''hello''), ([''dest''], Dir),
      ([''dest'', ''txt''], Special)]"

section \<open>Properties of the word count\<close>

subsection \<open>Normalizer\<close>

lemma maketrans_delete:
  "fold (\<lambda>c t. t(c \<mapsto> None)) z t0 c = (if c \<in> set z then Some None else t0 c)"
  by (induction z arbitrary: t0) auto

lemma str_maketrans_empty:
  "str_maketrans [] [] z c = (if c \<in> set z then Some None else None)"
  by (simp add: str_maketrans_def maketrans_delete)

lemma str_translate_delete:
  "(\<And>c. t c = (if c \<in> D then Some None else None)) \<Longrightarrow>
     str_translate s t = filter (\<lambda>c. c \<notin> D) s"
  by (induction s) auto

lemma remove_punctuation_filter:
  "remove_punctuation text = filter (\<lambda>c. c \<notin> set punctuation) text"
  unfolding remove_punctuation_def
  by (rule str_translate_delete) (rule str_maketrans_empty)

lemma punctuation_disjoint:
  "c \<in> set punctuation \<Longrightarrow> \<not> isspace c \<and> c \<notin> set (uppercase @ lowercase @ digits)"
  unfolding punctuation_def isspace_def whitespace_def uppercase_def lowercase_def digits_def
  by auto

lemma punctuation_ascii: "c \<in> set punctuation \<Longrightarrow> (of_char c :: nat) < 128"
  unfolding punctuation_def by auto

text \<open>
  C6. For every text, \<open>remove_punctuation\<close> returns the text without its characters
  of \<open>string.punctuation\<close>, every other character staying in its place and order.
  A punctuation character is an ASCII character that is no whitespace, no letter
  (with or without a case) and no digit, so all of these stay; the underscore is
  one of the punctuation characters. The empty text gives the empty text, and the
  function is total: it returns a text for every text.
\<close>

theorem remove_punctuation_removes_exactly:
  "remove_punctuation text = filter (\<lambda>c. c \<notin> set punctuation) text
   \<and> remove_punctuation [] = []
   \<and> (\<forall>c \<in> set punctuation.
         \<not> isspace c \<and> c \<notin> set (uppercase @ lowercase @ digits) \<and> (of_char c :: nat) < 128)"
  using punctuation_disjoint punctuation_ascii by (simp add: remove_punctuation_filter)

theorem remove_punctuation_removes_exactly_witness:
  "remove_punctuation ''The cat sat. The CAT sat!'' = ''The cat sat The CAT sat''
   \<and> \<not> isspace (CHR ''!'') \<and> CHR ''!'' \<notin> set (uppercase @ lowercase @ digits)
   \<and> (of_char (CHR ''!'') :: nat) < 128"
  using remove_punctuation_removes_exactly [of "''The cat sat. The CAT sat!''"]
  by (simp add: punctuation_def)

text \<open>
  C7. \<open>remove_punctuation\<close> is idempotent: a second pass over its result changes
  nothing.
\<close>

theorem remove_punctuation_idempotent:
  "remove_punctuation (remove_punctuation x) = remove_punctuation x"
  by (simp add: remove_punctuation_filter)

subsection \<open>Reducer\<close>

lemma total_notin: "w \<notin> fst ` set xs \<Longrightarrow> total xs w = 0"
proof -
  assume "w \<notin> fst ` set xs"
  then have "filter (\<lambda>p. fst p = w) xs = []"
    by (auto simp: filter_empty_conv)
  then show ?thesis by (simp add: total_def)
qed

lemma total_Cons: "total ((k, n) # xs) w = (if k = w then n else 0) + total xs w"
  by (simp add: total_def)

lemma total_mset:
  assumes "mset xs = mset ys"
  shows "total xs w = total ys w"
proof -
  have "\<And>zs. total zs w = sum_mset (image_mset snd (filter_mset (\<lambda>p. fst p = w) (mset zs)))"
    by (simp add: total_def flip: sum_mset_sum_list)
  with assms show ?thesis by simp
qed

lemma map_of_counter_set: "map_of (counter_set c w v) = (map_of c)(w \<mapsto> v)"
  by (simp add: counter_set_def update_conv')

lemma map_of_reduce_loop:
  "map_of (reduce_loop xs c) w =
     (if w \<in> fst ` set xs then Some (counter_get c w + total xs w) else map_of c w)"
proof (induction xs arbitrary: c)
  case Nil
  then show ?case by simp
next
  case (Cons x xs)
  obtain k n where x: "x = (k, n)" by (cases x)
  show ?case
    using total_notin [of w xs]
    by (auto simp: x Cons.IH map_of_counter_set counter_get_def total_Cons
             split: option.splits)
qed

lemma map_of_shuffle_and_reduce:
  "map_of (shuffle_and_reduce xs) w = (if w \<in> fst ` set xs then Some (total xs w) else None)"
  by (simp add: shuffle_and_reduce_def map_of_reduce_loop counter_get_def)

text \<open>
  C1. For every sequence of mapped pairs and every permutation of it,
  \<open>shuffle_and_reduce\<close> produces the same frequency table: the two counters have the
  same words with the same counts. (As lists of entries they may differ, the
  order of first insertion being that of the input.)
\<close>

theorem shuffle_and_reduce_permutation:
  assumes "mset xs = mset ys"
  shows "map_of (shuffle_and_reduce xs) = map_of (shuffle_and_reduce ys)"
proof
  fix w
  from assms have "set xs = set ys" by (rule mset_eq_setD)
  with total_mset [OF assms, of w]
  show "map_of (shuffle_and_reduce xs) w = map_of (shuffle_and_reduce ys) w"
    by (simp add: map_of_shuffle_and_reduce)
qed

theorem shuffle_and_reduce_permutation_witness:
  "mset [(''a'', 1), (''b'', 1), (''a'', 1)] = mset [(''b'', 1), (''a'', 1), (''a'', 1::int)]
   \<and> map_of (shuffle_and_reduce [(''a'', 1), (''b'', 1), (''a'', 1)])
       = map_of (shuffle_and_reduce [(''b'', 1), (''a'', 1), (''a'', 1)])"
proof -
  have h: "mset [(''a'', 1), (''b'', 1), (''a'', 1)] = mset [(''b'', 1), (''a'', 1), (''a'', 1::int)]"
    by simp
  show ?thesis using h shuffle_and_reduce_permutation [OF h] by simp
qed

lemma sum_counter_add:
  "sum_list (map snd (counter_set c w (counter_get c w + n))) = sum_list (map snd c) + n"
  by (induction c) (auto simp: counter_set_def counter_get_def)

lemma sum_reduce_loop:
  "sum_list (map snd (reduce_loop xs c)) = sum_list (map snd c) + sum_list (map snd xs)"
proof (induction xs arbitrary: c)
  case Nil
  then show ?case by simp
next
  case (Cons x xs)
  obtain k n where x: "x = (k, n)" by (cases x)
  show ?case by (simp add: x Cons.IH sum_counter_add)
qed

lemma sum_shuffle_and_reduce:
  "sum_list (map snd (shuffle_and_reduce xs)) = sum_list (map snd xs)"
  by (simp add: shuffle_and_reduce_def sum_reduce_loop)

lemma sum_map_function: "sum_list (map (snd \<circ> map_function) ws) = int (length ws)"
  by (induction ws) (auto simp: map_function_def)

subsection \<open>Mapper on the pool\<close>

lemma fold_run_task:
  "fold (run_task fn items) sched m i =
     (if i \<in> set sched \<and> i < length items then Some (fn (items ! i)) else m i)"
  by (induction sched arbitrary: m) (auto simp: run_task_def)

lemma those_map_Some: "those (map Some xs) = Some xs"
  by (induction xs) auto

lemma executor_map_complete:
  assumes "{..<length items} \<subseteq> set sched"
  shows "those (executor_map sched fn items) = Some (map fn items)"
proof -
  have "map (fold (run_task fn items) sched Map.empty) [0..<length items]
        = map (\<lambda>i. Some (fn (items ! i))) [0..<length items]"
    using assms by (auto simp: fold_run_task)
  also have "\<dots> = map Some (map fn (map ((!) items) [0..<length items]))"
    by simp
  also have "\<dots> = map Some (map fn items)"
    by (simp only: map_nth)
  finally have "executor_map sched fn items = map Some (map fn items)"
    by (simp add: executor_map_def)
  then show ?thesis
    by (simp only: those_map_Some)
qed

lemma permutation_covers: "mset sched = mset [0..<n] \<Longrightarrow> {..<n} \<subseteq> set sched"
  by (metis atLeast_upt mset_eq_setD order_refl)

lemma process_text_complete:
  assumes "mset sched = mset [0..<length (str_split (remove_punctuation text))]"
  shows "process_text sched text
         = Some (sequential_map_reduce (str_split (remove_punctuation text)))"
  using executor_map_complete [OF permutation_covers [OF assms], of map_function]
  by (simp add: process_text_def sequential_map_reduce_def Let_def)

text \<open>
  C2. For every text, and whatever the order in which the pool finishes the
  tasks (each task once), \<open>process_text\<close> returns a counter, and the sum of its
  counts is the number of words that \<open>split\<close> yields on the text without its
  punctuation.
\<close>

theorem process_text_conserves_tokens:
  assumes "mset sched = mset [0..<length (str_split (remove_punctuation text))]"
  shows "map_option (\<lambda>freq. sum_list (map snd freq)) (process_text sched text)
         = Some (int (length (str_split (remove_punctuation text))))"
  by (simp add: process_text_complete [OF assms] sequential_map_reduce_def
        sum_shuffle_and_reduce sum_map_function)

lemma split_example: "str_split (remove_punctuation ''b a, b'') = [''b'', ''a'', ''b'']"
  by code_simp

theorem process_text_conserves_tokens_witness:
  "mset [2, 0, 1] = mset [0..<length (str_split (remove_punctuation ''b a, b''))]
   \<and> map_option (\<lambda>freq. sum_list (map snd freq)) (process_text [2, 0, 1] ''b a, b'') = Some 3"
proof -
  have h: "mset [2, 0, 1] = mset [0..<length (str_split (remove_punctuation ''b a, b''))]"
    by (simp add: split_example upt_rec)
  show ?thesis
    using h process_text_conserves_tokens [OF h] by (simp add: split_example)
qed

text \<open>
  C3. For every sequence of words and every order in which the workers of a
  pool finish the tasks (each task once), mapping on the pool and reducing gives
  the counter that mapping the words one after the other and reducing gives; a
  pool of one worker, which finishes the tasks in their order, is one such case.
  So \<open>process_text\<close> returns the result of the sequential map and reduce on its
  words.
\<close>

theorem process_text_pool_independent:
  assumes "mset sched = mset [0..<length words]"
  shows "map_option shuffle_and_reduce (those (executor_map sched map_function words))
           = Some (sequential_map_reduce words)
       \<and> map_option shuffle_and_reduce (those (executor_map [0..<length words] map_function words))
           = Some (sequential_map_reduce words)
       \<and> (words = str_split (remove_punctuation text) \<longrightarrow>
            process_text sched text = Some (sequential_map_reduce words))"
proof -
  have one: "{..<length words} \<subseteq> set [0..<length words]" by auto
  show ?thesis
    using executor_map_complete [OF permutation_covers [OF assms], of map_function]
          executor_map_complete [OF one, of map_function]
          process_text_complete [of sched "text"] assms
    by (auto simp: sequential_map_reduce_def)
qed

theorem process_text_pool_independent_witness:
  "mset [2, 0, 1] = mset [0..<length [''b'', ''a'', ''b'']]
   \<and> [''b'', ''a'', ''b''] = str_split (remove_punctuation ''b a, b'')
   \<and> process_text [2, 0, 1] ''b a, b'' = Some (sequential_map_reduce [''b'', ''a'', ''b''])
   \<and> process_text [0, 1, 2] ''b a, b'' = Some [(''b'', 2), (''a'', 1)]"
proof -
  have h: "mset [2, 0, 1] = mset [0..<length [''b'', ''a'', ''b'']]"
    by (simp add: upt_rec)
  have one: "process_text [0, 1, 2] ''b a, b'' = Some [(''b'', 2), (''a'', 1)]"
    by code_simp
  show ?thesis
    using h one process_text_pool_independent [OF h, of "''b a, b''"]
    by (simp add: split_example)
qed

subsection \<open>Ranker and pipeline\<close>

lemma sorted_by_count:
  "sorted_wrt (\<lambda>a b. snd b \<le> snd a) (sort_key (\<lambda>(w, v). - v) (c :: counter))"
proof -
  have "sorted (map (\<lambda>(w, v). - v) (sort_key (\<lambda>(w, v). - v) c))"
    by (rule sorted_sort_key)
  then show ?thesis
    by (simp add: sorted_map case_prod_beta)
qed

text \<open>
  C4. For every counter \<open>freq\<close> and every integer \<open>n\<close>, \<open>most_common freq n\<close> is the
  first \<open>n\<close> entries of a rearrangement of all the entries of \<open>freq\<close> in
  descending order of count (none for \<open>n \<le> 0\<close>): it is a sequence of entries of
  \<open>freq\<close> in descending order of count, no entry left out has a higher count
  than one that is in, it has \<open>min n (length freq)\<close> entries when \<open>n\<close> is positive
  and none when \<open>n \<le> 0\<close>.
\<close>

theorem most_common_ranked:
  "(\<exists>ranked. mset ranked = mset freq
             \<and> sorted_wrt (\<lambda>a b. snd b \<le> snd a) ranked
             \<and> most_common freq n = take (nat n) ranked)
   \<and> (0 < n \<longrightarrow> length (most_common freq n) = min (nat n) (length freq))
   \<and> sorted_wrt (\<lambda>a b. snd b \<le> snd a) (most_common freq n)
   \<and> set (most_common freq n) \<subseteq> set freq
   \<and> (n \<le> 0 \<longrightarrow> most_common freq n = [])"
proof -
  have "\<exists>ranked. mset ranked = mset freq
             \<and> sorted_wrt (\<lambda>a b. snd b \<le> snd a) ranked
             \<and> most_common freq n = take (nat n) ranked"
  proof (intro exI conjI)
    show "mset (sort_key (\<lambda>(w, v). - v) freq) = mset freq" by simp
    show "sorted_wrt (\<lambda>a b. snd b \<le> snd a) (sort_key (\<lambda>(w, v). - v) freq)"
      by (rule sorted_by_count)
    show "most_common freq n = take (nat n) (sort_key (\<lambda>(w, v). - v) freq)"
      by (simp add: most_common_def)
  qed
  then show ?thesis
    using sorted_by_count [of freq] set_take_subset [of "nat n" "sort_key (\<lambda>(w, v). - v) freq"]
    by (auto simp: most_common_def)
qed

theorem most_common_ranked_witness:
  "(0::int) < 2 \<and> length (most_common [(''c'', 1), (''a'', 3), (''b'', 2)] 2) = 2
   \<and> most_common [(''c'', 1), (''a'', 3), (''b'', 2)] 2 = [(''a'', 3), (''b'', 2)]
   \<and> (0::int) \<le> 0 \<and> most_common [(''c'', 1), (''a'', 3), (''b'', 2)] 0 = []"
proof -
  have top: "most_common [(''c'', 1), (''a'', 3), (''b'', 2)] 2 = [(''a'', 3), (''b'', 2)]"
    by code_simp
  show ?thesis
    using top most_common_ranked [of "[(''c'', 1), (''a'', 3), (''b'', 2)]" 2]
          most_common_ranked [of "[(''c'', 1), (''a'', 3), (''b'', 2)]" 0]
    by simp
qed

text \<open>
  C5. On the empty text \<open>process_text\<close> returns the empty counter, and ranking it
  with \<open>most_common\<close> for the top 10 gives the empty sequence: the pipeline up to
  the ranking returns normally, with nothing in it.
\<close>

theorem process_empty_text:
  "process_text [] [] = Some []
   \<and> map_option (\<lambda>word_counts. most_common word_counts 10) (process_text [] []) = Some []"
  by (simp add: process_text_def remove_punctuation_def str_split.simps executor_map_def
        shuffle_and_reduce_def most_common_def)

text \<open>
  C10. For the empty counter, and every \<open>top_n\<close>, \<open>visualize\<close> raises \<open>ValueError\<close> at
  the unpacking of \<open>zip(*top_words)\<close>: it draws no chart.
\<close>

theorem visualize_empty_raises:
  "visualize [] top_n = Inl ValueError"
  by (simp add: visualize_def most_common_def zip_star_def unpack2_def)

subsection \<open>Fetching\<close>

lemma fetch_None: "fst (fetch get url) = None \<longleftrightarrow> request_fails (get url)"
  by (auto simp: fetch_def request_fails_def raise_for_status_def split: sum.splits)

text \<open>
  C8 (amended). For every URL and every behaviour of the network, if the request
  fails, that is \<open>requests.get\<close> raises or the status is one of 400 to 599, then
  \<open>fetch\<close> returns \<open>None\<close>, and the run logs the failure of the fetch and that it
  does not proceed, and ends: neither \<open>process_text\<close> nor \<open>visualize\<close> is invoked.
\<close>

theorem fetch_failure_aborts_run:
  assumes "request_fails (get url)"
  shows "fst (fetch get url) = None
       \<and> (\<exists>e. fst (main_block get sched url) = [Log_error_fetching url e, Log_failed_to_proceed])
       \<and> snd (main_block get sched url) = Not_proceeded
       \<and> \<not> list_ex is_call (fst (main_block get sched url))"
  using assms
  by (auto simp: main_block_def fetch_def request_fails_def raise_for_status_def
           split: sum.splits)

theorem fetch_failure_aborts_run_witness:
  "request_fails (Inr (Response 404 ''Not Found''))
   \<and> main_block (\<lambda>url. Inr (Response 404 ''Not Found'')) [0, 1] URL
       = ([Log_error_fetching URL (HTTPError 404), Log_failed_to_proceed], Not_proceeded)"
proof -
  have h: "request_fails (Inr (Response 404 ''Not Found''))"
    by (simp add: request_fails_def)
  have run: "main_block (\<lambda>url. Inr (Response 404 ''Not Found'')) [0, 1] URL
       = ([Log_error_fetching URL (HTTPError 404), Log_failed_to_proceed], Not_proceeded)"
    by (simp add: main_block_def fetch_def raise_for_status_def)
  show ?thesis
    using h run
      fetch_failure_aborts_run [of "\<lambda>url. Inr (Response 404 ''Not Found'')" URL "[0, 1]"]
    by simp
qed

text \<open>
  The claim as first stated, with every status outside 200 to 299 a failure,
  does not hold: a response with status 300 and the text \<open>a b\<close> is passed to
  \<open>process_text\<close> and its counter to \<open>visualize\<close>.
\<close>

theorem non_2xx_status_runs_pipeline:
  "non_2xx_failure (Inr (Response 300 ''a b''))
   \<and> fst (main_block (\<lambda>url. Inr (Response 300 ''a b'')) [0, 1] URL)
       = [Call_process_text ''a b'', Call_visualize [(''a'', 1), (''b'', 1)] 10]"
proof -
  have "process_text [0, 1] ''a b'' = Some [(''a'', 1), (''b'', 1)]"
    by code_simp
  then show ?thesis
    by (simp add: non_2xx_failure_def main_block_def fetch_def raise_for_status_def)
qed

section \<open>Properties of the file organizer\<close>

subsection \<open>Names and extensions\<close>

lemma rfind_last: "c \<notin> set e \<Longrightarrow> rfind c (stem @ c # e) = int (length stem)"
proof -
  assume a: "c \<notin> set e"
  have "takeWhile (\<lambda>x. x \<noteq> c) (rev e @ c # rev stem) = rev e"
    using a by (auto simp: takeWhile_tail)
  then show ?thesis by (simp add: rfind_def)
qed

lemma rfind_absent: "c \<notin> set s \<Longrightarrow> rfind c s = - 1"
  by (simp add: rfind_def)

lemma suffix_split:
  assumes "path_name p = stem @ CHR ''.'' # e" "CHR ''.'' \<notin> set e"
  shows "drop 1 (suffix p) = (if stem \<noteq> [] \<and> e \<noteq> [] then e else [])"
  using assms rfind_last [of "CHR ''.''" e stem]
  by (auto simp: suffix_def Let_def)

lemma suffix_split_nodot:
  assumes "path_name p = stem @ CHR ''.'' # e" "CHR ''.'' \<notin> set e"
  shows "CHR ''.'' \<notin> set (drop 1 (suffix p))"
proof -
  have "drop 1 (suffix p) = (if stem \<noteq> [] \<and> e \<noteq> [] then e else [])"
    using assms by (rule suffix_split)
  then show ?thesis using assms(2) by (auto split: if_splits)
qed

lemma suffix_nodot: "CHR ''.'' \<notin> set (drop 1 (suffix p))"
proof (cases "CHR ''.'' \<in> set (path_name p)")
  case True
  then obtain stem e where "path_name p = stem @ CHR ''.'' # e" "CHR ''.'' \<notin> set e"
    by (meson split_list_last)
  then show ?thesis by (rule suffix_split_nodot)
next
  case False
  then show ?thesis by (simp add: suffix_def rfind_absent Let_def)
qed

subsection \<open>One file\<close>

subsection \<open>One file\<close>

lemma joinpath_distinct:
  "CHR ''.'' \<in> set n \<Longrightarrow> CHR ''.'' \<notin> set e \<Longrightarrow> joinpath (joinpath out e') n \<noteq> joinpath out e"
  by (auto simp: joinpath_def)

lemma mkdir_mono:
  "mkdir_exist_ok fs p = Inr fs1 \<Longrightarrow> map_of fs q = Some v \<Longrightarrow> map_of fs1 q = Some v"
  by (auto simp: mkdir_exist_ok_def update_conv' split: option.splits node.splits)

lemma mkdir_new:
  "mkdir_exist_ok fs p = Inr fs1 \<Longrightarrow> map_of fs1 q = Some v \<Longrightarrow> map_of fs q = Some v \<or> v = Dir"
  by (auto simp: mkdir_exist_ok_def update_conv' split: option.splits node.splits if_splits)

lemma mkdir_dir:
  "mkdir_exist_ok fs p = Inr fs1 \<Longrightarrow> map_of fs1 p = Some Dir"
  by (auto simp: mkdir_exist_ok_def update_conv' split: option.splits node.splits)

lemma mkdir_other:
  "mkdir_exist_ok fs p = Inr fs1 \<Longrightarrow> q \<noteq> p \<Longrightarrow> map_of fs1 q = map_of fs q"
  by (auto simp: mkdir_exist_ok_def update_conv' split: option.splits node.splits)

lemma mkdir_succeeds:
  assumes "map_of fs p = Some Dir \<or> map_of fs p = None \<and> map_of fs (butlast p) = Some Dir"
  shows "\<exists>fs1. mkdir_exist_ok fs p = Inr fs1"
  using assms by (auto simp: mkdir_exist_ok_def split: option.splits node.splits)

lemma copy_absent:
  "shutil_copy fs src dst = Inr fs2 \<Longrightarrow> map_of fs dst = None \<Longrightarrow>
     (\<exists>d. map_of fs src = Some (File d) \<and> fs2 = AList.update dst (File d) fs)"
  by (auto simp: shutil_copy_def Let_def split: option.splits node.splits if_splits)

lemma copy_succeeds:
  "map_of fs src = Some (File d) \<Longrightarrow> map_of fs dst = None \<Longrightarrow> map_of fs (butlast dst) = Some Dir
     \<Longrightarrow> shutil_copy fs src dst = Inr (AList.update dst (File d) fs)"
  by (auto simp: shutil_copy_def Let_def split: option.splits node.splits)

lemma copy_file_cases:
  obtains
    (mkdir_error) e where
      "mkdir_exist_ok fs (dest_folder_of self file) = Inl e"
      "copy_file self file (fs, log) = (fs, log @ [Error_copying file e])"
  | (skipped) fs1 where
      "mkdir_exist_ok fs (dest_folder_of self file) = Inr fs1"
      "map_of fs1 (dest_file_of self file) \<noteq> None"
      "copy_file self file (fs, log) = (fs1, log @ [Warning_exists (dest_file_of self file)])"
  | (copy_error) fs1 e where
      "mkdir_exist_ok fs (dest_folder_of self file) = Inr fs1"
      "map_of fs1 (dest_file_of self file) = None"
      "shutil_copy fs1 file (dest_file_of self file) = Inl e"
      "copy_file self file (fs, log) = (fs1, log @ [Error_copying file e])"
  | (copied) fs1 fs2 where
      "mkdir_exist_ok fs (dest_folder_of self file) = Inr fs1"
      "map_of fs1 (dest_file_of self file) = None"
      "shutil_copy fs1 file (dest_file_of self file) = Inr fs2"
      "copy_file self file (fs, log) = (fs2, log @ [Info_copied file (dest_file_of self file)])"
proof (cases "mkdir_exist_ok fs (dest_folder_of self file)")
  case (Inl e)
  then have "copy_file self file (fs, log) = (fs, log @ [Error_copying file e])"
    by (simp add: copy_file_def dest_folder_of_def Let_def)
  with Inl show ?thesis by (rule mkdir_error)
next
  case (Inr fs1)
  show ?thesis
  proof (cases "map_of fs1 (dest_file_of self file) = None")
    case False
    then obtain y where "map_of fs1 (dest_file_of self file) = Some y" by auto
    with Inr have "copy_file self file (fs, log)
                   = (fs1, log @ [Warning_exists (dest_file_of self file)])"
      by (simp add: copy_file_def dest_folder_of_def dest_file_of_def Let_def exists_path_def)
    with Inr False show ?thesis by (rule skipped)
  next
    case True
    show ?thesis
    proof (cases "shutil_copy fs1 file (dest_file_of self file)")
      case (Inl e)
      with Inr True have "copy_file self file (fs, log) = (fs1, log @ [Error_copying file e])"
        by (simp add: copy_file_def dest_folder_of_def dest_file_of_def Let_def exists_path_def)
      with Inr True Inl show ?thesis by (rule copy_error)
    next
      case (Inr fs2)
      with \<open>mkdir_exist_ok fs (dest_folder_of self file) = Inr fs1\<close> True
      have "copy_file self file (fs, log)
            = (fs2, log @ [Info_copied file (dest_file_of self file)])"
        by (simp add: copy_file_def dest_folder_of_def dest_file_of_def Let_def exists_path_def)
      with \<open>mkdir_exist_ok fs (dest_folder_of self file) = Inr fs1\<close> True Inr
      show ?thesis by (rule copied)
    qed
  qed
qed

lemma copy_file_mono:
  assumes "map_of fs q = Some v"
  shows "map_of (fst (copy_file self file (fs, log))) q = Some v"
proof (cases rule: copy_file_cases [of fs self "file" log])
  case (mkdir_error e)
  with assms show ?thesis by simp
next
  case (skipped fs1)
  with assms show ?thesis by (simp add: mkdir_mono)
next
  case (copy_error fs1 e)
  with assms show ?thesis by (simp add: mkdir_mono)
next
  case (copied fs1 fs2)
  from copied(1) assms have q: "map_of fs1 q = Some v" by (rule mkdir_mono)
  with copied(2) have "q \<noteq> dest_file_of self file" by auto
  moreover from copied(3,2) obtain d where "fs2 = AList.update (dest_file_of self file) (File d) fs1"
    by (auto dest: copy_absent)
  ultimately show ?thesis using q copied(4) by (simp add: update_conv')
qed

lemma copy_file_log:
  "\<exists>r. snd (copy_file self file (fs, log)) = log @ [r]"
  by (cases rule: copy_file_cases [of fs self "file" log]) simp_all

lemma copy_file_new:
  assumes "map_of (fst (copy_file self file (fs, log))) q = Some v"
  shows "map_of fs q = Some v \<or> v = Dir \<or> q = dest_file_of self file"
proof (cases rule: copy_file_cases [of fs self "file" log])
  case (mkdir_error e)
  with assms show ?thesis by simp
next
  case (skipped fs1)
  with assms show ?thesis by (auto dest: mkdir_new)
next
  case (copy_error fs1 e)
  with assms show ?thesis by (auto dest: mkdir_new)
next
  case (copied fs1 fs2)
  from copied(3,2) obtain d' where "fs2 = AList.update (dest_file_of self file) (File d') fs1"
    by (auto dest: copy_absent)
  with assms copied(4) have "q \<noteq> dest_file_of self file \<Longrightarrow> map_of fs1 q = Some v"
    by (simp add: update_conv')
  with copied(1) show ?thesis by (auto dest: mkdir_new)
qed

text \<open>The step for a regular file with the destination in order.\<close>

lemma copy_file_step:
  assumes out: "map_of fs (output_folder self) = Some Dir"
    and isfile: "map_of fs file = Some (File data)"
    and name: "path_name file \<noteq> []"
    and folder: "map_of fs (dest_folder_of self file) = None
                 \<or> map_of fs (dest_folder_of self file) = Some Dir"
  shows "map_of (fst (copy_file self file (fs, log))) (dest_folder_of self file) = Some Dir
     \<and> (if map_of fs (dest_file_of self file) = None
        then copy_file self file (fs, log)
               = (fst (copy_file self file (fs, log)),
                  log @ [Info_copied file (dest_file_of self file)])
             \<and> map_of (fst (copy_file self file (fs, log))) (dest_file_of self file)
                 = Some (File data)
        else copy_file self file (fs, log)
               = (fst (copy_file self file (fs, log)),
                  log @ [Warning_exists (dest_file_of self file)])
             \<and> map_of (fst (copy_file self file (fs, log))) (dest_file_of self file)
                 = map_of fs (dest_file_of self file))"
proof -
  let ?folder = "dest_folder_of self file" and ?target = "dest_file_of self file"
  have parent: "map_of fs ?folder = Some Dir \<or> map_of fs (butlast ?folder) = Some Dir"
    using out by (auto simp: dest_folder_of_def joinpath_def)
  with folder have "map_of fs ?folder = Some Dir
                    \<or> map_of fs ?folder = None \<and> map_of fs (butlast ?folder) = Some Dir"
    by auto
  then obtain fs1 where mk: "mkdir_exist_ok fs ?folder = Inr fs1"
    using mkdir_succeeds by blast
  have dir1: "map_of fs1 ?folder = Some Dir" using mk by (rule mkdir_dir)
  have ne: "?target \<noteq> ?folder" using name by (simp add: dest_file_of_def joinpath_def)
  have same: "map_of fs1 ?target = map_of fs ?target" using mk ne by (rule mkdir_other)
  have file1: "map_of fs1 file = Some (File data)" using mk isfile by (rule mkdir_mono)
  have up: "butlast ?target = ?folder" using name by (simp add: dest_file_of_def joinpath_def)
  show ?thesis
  proof (cases "map_of fs ?target = None")
    case True
    then have t1: "map_of fs1 ?target = None" using same by simp
    with file1 dir1 up
    have cp: "shutil_copy fs1 file ?target = Inr (AList.update ?target (File data) fs1)"
      by (simp add: copy_succeeds)
    have res: "copy_file self file (fs, log)
               = (AList.update ?target (File data) fs1, log @ [Info_copied file ?target])"
      using mk t1 cp
      by (simp add: copy_file_def dest_folder_of_def dest_file_of_def Let_def exists_path_def)
    show ?thesis using True dir1 ne by (simp add: res update_conv')
  next
    case False
    then have t1: "map_of fs1 ?target \<noteq> None" using same by simp
    then obtain y where "map_of fs1 ?target = Some y" by auto
    with mk have res: "copy_file self file (fs, log) = (fs1, log @ [Warning_exists ?target])"
      by (simp add: copy_file_def dest_folder_of_def dest_file_of_def Let_def exists_path_def)
    show ?thesis using False dir1 same by (simp add: res)
  qed
qed

subsection \<open>The whole listing\<close>

lemma fold_copy_mono:
  "map_of (fst st) q = Some v \<Longrightarrow> map_of (fst (fold (copy_file self) files st)) q = Some v"
proof (induction files arbitrary: st)
  case Nil
  then show ?case by simp
next
  case (Cons f files)
  have "map_of (fst (copy_file self f (fst st, snd st))) q = Some v"
    using Cons.prems by (rule copy_file_mono)
  then show ?case by (simp add: Cons.IH)
qed

lemma fold_copy_log:
  "\<exists>rs. snd (fold (copy_file self) files st) = snd st @ rs \<and> length rs = length files"
proof (induction files arbitrary: st)
  case Nil
  then show ?case by simp
next
  case (Cons f files)
  obtain r where r: "snd (copy_file self f st) = snd st @ [r]"
    using copy_file_log [of self f "fst st" "snd st"] by auto
  obtain rs where rs: "snd (fold (copy_file self) files (copy_file self f st))
                       = snd (copy_file self f st) @ rs" "length rs = length files"
    using Cons.IH by blast
  have "snd (fold (copy_file self) (f # files) st) = snd st @ (r # rs)"
    using r rs(1) by simp
  moreover have "length (r # rs) = length (f # files)" using rs(2) by simp
  ultimately show ?case by blast
qed

lemma fold_copy_folder:
  assumes "\<forall>f \<in> set files. CHR ''.'' \<in> set (path_name f)"
    and "CHR ''.'' \<notin> set e"
    and "map_of (fst st) (joinpath (output_folder self) e) = None
         \<or> map_of (fst st) (joinpath (output_folder self) e) = Some Dir"
  shows "map_of (fst (fold (copy_file self) files st)) (joinpath (output_folder self) e) = None
         \<or> map_of (fst (fold (copy_file self) files st)) (joinpath (output_folder self) e) = Some Dir"
  using assms
proof (induction files arbitrary: st)
  case Nil
  then show ?case by simp
next
  case (Cons f files)
  let ?q = "joinpath (output_folder self) e"
  have dot: "CHR ''.'' \<in> set (path_name f)" using Cons.prems(1) by simp
  have ne: "dest_file_of self f \<noteq> ?q"
    unfolding dest_file_of_def dest_folder_of_def
    using dot Cons.prems(2) by (rule joinpath_distinct)
  have "map_of (fst (copy_file self f st)) ?q = None
        \<or> map_of (fst (copy_file self f st)) ?q = Some Dir"
  proof (cases "map_of (fst (copy_file self f st)) ?q")
    case None
    then show ?thesis by simp
  next
    case (Some v)
    then have "map_of (fst (copy_file self f (fst st, snd st))) ?q = Some v" by simp
    then have "map_of (fst st) ?q = Some v \<or> v = Dir \<or> ?q = dest_file_of self f"
      by (rule copy_file_new)
    with ne Cons.prems(3) have "v = Dir" by auto
    with Some show ?thesis by simp
  qed
  with Cons.IH [of "copy_file self f st"] Cons.prems(1,2) show ?case by simp
qed

lemma rglob_walk_dotted:
  "p \<in> set (rglob_walk fs d) \<Longrightarrow> CHR ''.'' \<in> set (path_name p)"
proof (induction fs d rule: rglob_walk.induct)
  case (1 fs d)
  from "1.prems" have "p \<in> set (filter (\<lambda>p. CHR ''.'' \<in> set (path_name p)) (scandir fs d))
      \<or> (\<exists>c \<in> set (filter (\<lambda>p. map_of fs p = Some Dir) (scandir fs d)).
            p \<in> set (rglob_walk fs c))"
    by (subst (asm) rglob_walk.simps) auto
  then show ?case using "1.IH" by auto
qed

lemma rglob_dotted: "p \<in> set (rglob fs folder) \<Longrightarrow> CHR ''.'' \<in> set (path_name p)"
  by (auto simp: rglob_def dest: rglob_walk_dotted split: if_splits)

lemma rglob_walk_member:
  assumes "file \<in> set (map fst fs)" and "CHR ''.'' \<in> set (path_name file)"
    and "below d file"
    and "\<forall>k. length d < k \<and> k < length file \<longrightarrow> map_of fs (take k file) = Some Dir"
  shows "file \<in> set (rglob_walk fs d)"
  using assms(3,4)
proof (induction "length file - length d" arbitrary: d rule: less_induct)
  case less
  have len: "length d < length file" and pre: "take (length d) file = d"
    using less.prems(1) by (simp_all add: below_def)
  show ?case
  proof (cases "length file = Suc (length d)")
    case True
    have "file \<noteq> []" using len by auto
    moreover have "butlast file = d" using True pre by (simp add: butlast_conv_take)
    ultimately have "file \<in> set (scandir fs d)" using assms(1) by (simp add: scandir_def)
    then show ?thesis using assms(2) by (subst rglob_walk.simps) simp
  next
    case False
    let ?c = "take (Suc (length d)) file"
    have lc: "length ?c = Suc (length d)" using len by simp
    have cdir: "map_of fs ?c = Some Dir" using less.prems(2) len False by simp
    then have "?c \<in> set (map fst fs)" by (force dest: map_of_SomeD)
    moreover have "?c \<noteq> []" using len by auto
    moreover have "butlast ?c = d"
      using pre lc by (simp add: butlast_conv_take min_def)
    ultimately have child: "?c \<in> set (filter (\<lambda>p. map_of fs p = Some Dir) (scandir fs d))"
      using cdir by (simp add: scandir_def)
    have "below ?c file" using len False by (simp add: below_def)
    moreover have "\<forall>k. length ?c < k \<and> k < length file \<longrightarrow> map_of fs (take k file) = Some Dir"
      using less.prems(2) lc by simp
    moreover have "length file - length ?c < length file - length d" using len lc by simp
    ultimately have "file \<in> set (rglob_walk fs ?c)" using less.hyps by blast
    with child show ?thesis by (subst rglob_walk.simps) auto
  qed
qed

lemma rglob_member:
  assumes "map_of fs file = Some v" and "CHR ''.'' \<in> set (path_name file)"
    and "below folder file"
    and "\<forall>k. length folder \<le> k \<and> k < length file \<longrightarrow> map_of fs (take k file) = Some Dir"
  shows "file \<in> set (rglob fs folder)"
proof -
  have "length folder \<le> length folder \<and> length folder < length file"
    using assms(3) by (simp add: below_def)
  with assms(4) have "map_of fs (take (length folder) file) = Some Dir" by blast
  then have "map_of fs folder = Some Dir" using assms(3) by (simp add: below_def)
  moreover have "file \<in> set (map fst fs)" using assms(1) by (force dest: map_of_SomeD)
  moreover have "\<forall>k. length folder < k \<and> k < length file \<longrightarrow> map_of fs (take k file) = Some Dir"
    using assms(4) by simp
  ultimately show ?thesis
    using assms(2,3) by (simp add: rglob_def rglob_walk_member)
qed

lemma read_folder_turn:
  assumes out: "map_of fs (output_folder self) = Some Dir"
    and i: "i < length (rglob fs folder)" and at: "rglob fs folder ! i = file"
    and isfile: "map_of fs file = Some (File data)"
    and ok: "map_of fs (dest_folder_of self file) = None
             \<or> map_of fs (dest_folder_of self file) = Some Dir"
    and run: "read_folder self folder fs = (fs', log)"
    and turn: "fold (copy_file self) (take i (rglob fs folder)) (fs, []) = (fs1, log1)"
  shows "length log = length (rglob fs folder)
     \<and> map_of fs' (dest_folder_of self file) = Some Dir
     \<and> (if map_of fs1 (dest_file_of self file) = None
        then log ! i = Info_copied file (dest_file_of self file)
             \<and> map_of fs' (dest_file_of self file) = Some (File data)
        else log ! i = Warning_exists (dest_file_of self file)
             \<and> map_of fs' (dest_file_of self file) = map_of fs1 (dest_file_of self file))
     \<and> (\<forall>v. map_of fs (dest_file_of self file) = Some v \<longrightarrow>
            map_of fs1 (dest_file_of self file) = Some v)"
proof -
  let ?T = "dest_file_of self file" and ?D = "dest_folder_of self file"
  let ?L = "rglob fs folder"
  have split: "?L = take i ?L @ file # drop (Suc i) ?L"
    using i at by (metis id_take_nth_drop)
  obtain fs2 log2 where st2: "copy_file self file (fs1, log1) = (fs2, log2)"
    by fastforce
  have "fold (copy_file self) ?L (fs, [])
        = fold (copy_file self) (drop (Suc i) ?L) (copy_file self file
            (fold (copy_file self) (take i ?L) (fs, [])))"
    by (subst split) simp
  then have final: "fold (copy_file self) (drop (Suc i) ?L) (fs2, log2) = (fs', log)"
    using run by (simp add: read_folder_def turn st2)
  have dotted: "\<forall>f \<in> set (take i ?L). CHR ''.'' \<in> set (path_name f)"
    by (meson in_set_takeD rglob_dotted)
  have name: "path_name file \<noteq> []"
    using rglob_dotted [of "file" fs folder] i at by (metis empty_iff list.set(1) nth_mem)
  have mono1: "\<And>q v. map_of fs q = Some v \<Longrightarrow> map_of fs1 q = Some v"
    using fold_copy_mono [of "(fs, [])" _ _ self "take i ?L"] by (simp add: turn)
  have ok1: "map_of fs1 ?D = None \<or> map_of fs1 ?D = Some Dir"
    using fold_copy_folder [of "take i ?L" "drop 1 (suffix file)" "(fs, [])" self]
      dotted suffix_nodot [of "file"] ok
    by (simp add: turn dest_folder_of_def)
  have mono2: "\<And>q v. map_of fs2 q = Some v \<Longrightarrow> map_of fs' q = Some v"
    using fold_copy_mono [of "(fs2, log2)" _ _ self "drop (Suc i) ?L"] by (simp add: final)
  obtain rs1 where rs1: "log1 = rs1" "length rs1 = i"
    using fold_copy_log [of self "take i ?L" "(fs, [])"] i by (auto simp: turn)
  obtain r where r: "log2 = log1 @ [r]"
    using copy_file_log [of self "file" fs1 log1] by (auto simp: st2)
  obtain rs2 where rs2: "log = log2 @ rs2" "length rs2 = length (drop (Suc i) ?L)"
    using fold_copy_log [of self "drop (Suc i) ?L" "(fs2, log2)"] by (auto simp: final)
  have nth: "log ! i = r" using rs1 r rs2(1) by (simp add: nth_append)
  have len: "length log = length ?L" using rs1 r rs2 i by simp
  note step = copy_file_step [OF mono1 [OF out] mono1 [OF isfile] name ok1, of log1]
  from step have dir2: "map_of fs2 ?D = Some Dir" by (simp add: st2)
  show ?thesis
  proof (cases "map_of fs1 ?T = None")
    case True
    with step have "log2 = log1 @ [Info_copied file ?T]"
      and t2: "map_of fs2 ?T = Some (File data)"
      by (simp_all add: st2)
    then have "r = Info_copied file ?T" using r by simp
    moreover have "\<forall>v. map_of fs ?T \<noteq> Some v"
    proof (intro allI notI)
      fix v assume "map_of fs ?T = Some v"
      then have "map_of fs1 ?T = Some v" by (rule mono1)
      with True show False by simp
    qed
    ultimately show ?thesis using True len nth mono2 [OF dir2] mono2 [OF t2] by simp
  next
    case False
    then obtain y where y: "map_of fs1 ?T = Some y" by auto
    with step have "log2 = log1 @ [Warning_exists ?T]"
      and t2: "map_of fs2 ?T = Some y"
      by (simp_all add: st2)
    then have "r = Warning_exists ?T" using r by simp
    moreover have "\<forall>v. map_of fs ?T = Some v \<longrightarrow> y = v"
    proof (intro allI impI)
      fix v assume "map_of fs ?T = Some v"
      then have "map_of fs1 ?T = Some v" by (rule mono1)
      with y show "y = v" by simp
    qed
    ultimately show ?thesis using y len nth mono2 [OF dir2] mono2 [OF t2] by simp
  qed
qed

text \<open>
  C9 (amended). Let the destination folder exist as a directory, and let \<open>file\<close> be
  a regular file below the source folder, the folders on the way from the source
  folder to it being directories, with a dot in its name. Let \<open>e\<close> be the extension
  without the dot: what follows the last dot of the name when that dot is neither
  the first nor the last character of the name, and empty otherwise; let the
  target be \<open>dest/e/name\<close> (\<open>dest/name\<close> for the empty extension), and let \<open>dest/e\<close> be
  absent or a directory. Then the file is listed, every listed entry gets one
  record in the log, and after the run \<open>dest/e\<close> is a directory. When the turn of
  the file comes: if the target exists then, the copy is skipped with a warning
  and the target stays as it is then; if not, the file is copied to the target,
  with its content, and the copy is logged. A target that existed before the run
  is unchanged by it, and the turn of the file is a warning.
\<close>

theorem main_copies_by_extension:
  assumes "map_of fs dest = Some Dir"
    and "below source file"
    and "\<forall>k. length source \<le> k \<and> k < length file \<longrightarrow> map_of fs (take k file) = Some Dir"
    and "map_of fs file = Some (File data)"
    and "path_name file = stem @ CHR ''.'' # ext" and "CHR ''.'' \<notin> set ext"
    and "e = (if stem \<noteq> [] \<and> ext \<noteq> [] then ext else [])"
    and "target = joinpath (joinpath dest e) (path_name file)"
    and "map_of fs (joinpath dest e) = None \<or> map_of fs (joinpath dest e) = Some Dir"
    and "main source dest fs = (fs', log)"
  shows "file \<in> set (rglob fs source)
     \<and> length log = length (rglob fs source)
     \<and> map_of fs' (joinpath dest e) = Some Dir
     \<and> (\<forall>i < length (rglob fs source). rglob fs source ! i = file \<longrightarrow>
          (if exists_path (fs_at_turn source dest fs i) target
           then log ! i = Warning_exists target
                \<and> map_of fs' target = map_of (fs_at_turn source dest fs i) target
           else log ! i = Info_copied file target
                \<and> map_of fs' target = Some (File data)))
     \<and> (\<forall>v. map_of fs target = Some v \<longrightarrow>
            map_of fs' target = Some v
            \<and> (\<forall>i < length (rglob fs source). rglob fs source ! i = file \<longrightarrow>
                  log ! i = Warning_exists target))"
proof -
  let ?self = "\<lparr>source_folder = source, output_folder = dest\<rparr>"
  let ?L = "rglob fs source"
  have ext: "drop 1 (suffix file) = e"
    using suffix_split [OF assms(5,6)] assms(7) by simp
  have D: "dest_folder_of ?self file = joinpath dest e"
    using ext by (simp add: dest_folder_of_def)
  have T: "dest_file_of ?self file = target"
    using assms(8) by (simp add: dest_file_of_def D)
  have dot: "CHR ''.'' \<in> set (path_name file)" using assms(5) by simp
  have listed: "file \<in> set ?L"
    using assms(4) dot assms(2,3) by (rule rglob_member)
  have run: "read_folder ?self source fs = (fs', log)"
    using assms(10) by (simp add: main_def)
  have out: "map_of fs (output_folder ?self) = Some Dir" using assms(1) by simp
  have ok: "map_of fs (dest_folder_of ?self file) = None
            \<or> map_of fs (dest_folder_of ?self file) = Some Dir"
    using assms(9) by (simp add: D)
  have turn: "length log = length ?L
     \<and> map_of fs' (joinpath dest e) = Some Dir
     \<and> (if exists_path (fs_at_turn source dest fs i) target
        then log ! i = Warning_exists target
             \<and> map_of fs' target = map_of (fs_at_turn source dest fs i) target
        else log ! i = Info_copied file target \<and> map_of fs' target = Some (File data))
     \<and> (\<forall>v. map_of fs target = Some v \<longrightarrow>
            map_of fs' target = Some v \<and> log ! i = Warning_exists target)"
    if i: "i < length ?L" and at: "?L ! i = file" for i
  proof -
    obtain fs1 log1 where st: "fold (copy_file ?self) (take i ?L) (fs, []) = (fs1, log1)"
      by fastforce
    then have fs1: "fs_at_turn source dest fs i = fs1" by (simp add: fs_at_turn_def)
    show ?thesis
      using read_folder_turn [OF out i at assms(4) ok run st]
      unfolding D T fs1 exists_path_def by auto
  qed
  obtain i where i: "i < length ?L" "?L ! i = file"
    using listed by (meson in_set_conv_nth)
  show ?thesis using listed turn [OF i] turn by blast
qed

lemma listing_same_name: "rglob fs_same_name [''src''] = [[''src'', ''a.txt''], [''src'', ''sub'', ''a.txt'']]"
  by code_simp

lemma turn_same_name: "fs_at_turn [''src''] [''dest''] fs_same_name 1 =
   [([], Dir), ([''src''], Dir), ([''src'', ''a.txt''], File ''hello''),
      ([''src'', ''sub''], Dir), ([''src'', ''sub'', ''a.txt''], File ''other''),
      ([''dest''], Dir), ([''dest'', ''txt''], Dir),
      ([''dest'', ''txt'', ''a.txt''], File ''hello'')]"
  by code_simp

theorem main_copies_by_extension_witness:
  "map_of fs_same_name [''dest''] = Some Dir
   \<and> below [''src''] [''src'', ''sub'', ''a.txt'']
   \<and> map_of fs_same_name [''src'', ''sub'', ''a.txt''] = Some (File ''other'')
   \<and> path_name [''src'', ''sub'', ''a.txt''] = ''a'' @ CHR ''.'' # ''txt''
   \<and> map_of fs_same_name (joinpath [''dest''] ''txt'') = None
   \<and> rglob fs_same_name [''src''] = [[''src'', ''a.txt''], [''src'', ''sub'', ''a.txt'']]
   \<and> exists_path (fs_at_turn [''src''] [''dest''] fs_same_name 1) [''dest'', ''txt'', ''a.txt'']
   \<and> map_of (fst (main [''src''] [''dest''] fs_same_name)) [''dest'', ''txt''] = Some Dir
   \<and> map_of (fst (main [''src''] [''dest''] fs_same_name)) [''dest'', ''txt'', ''a.txt'']
       = Some (File ''hello'')
   \<and> snd (main [''src''] [''dest''] fs_same_name)
       = [Info_copied [''src'', ''a.txt''] [''dest'', ''txt'', ''a.txt''],
          Warning_exists [''dest'', ''txt'', ''a.txt'']]"
proof -
  let ?file = "[''src'', ''sub'', ''a.txt'']"
  let ?fs' = "[([], Dir), ([''src''], Dir), ([''src'', ''a.txt''], File ''hello''),
      ([''src'', ''sub''], Dir), ([''src'', ''sub'', ''a.txt''], File ''other''),
      ([''dest''], Dir), ([''dest'', ''txt''], Dir),
      ([''dest'', ''txt'', ''a.txt''], File ''hello'')]"
  let ?log = "[Info_copied [''src'', ''a.txt''] [''dest'', ''txt'', ''a.txt''],
               Warning_exists [''dest'', ''txt'', ''a.txt'']]"
  have h1: "map_of fs_same_name [''dest''] = Some Dir"
    by (simp add: fs_same_name_def)
  have h2: "below [''src''] ?file" by (simp add: below_def)
  have h3: "\<forall>k. length [''src''] \<le> k \<and> k < length ?file \<longrightarrow>
              map_of fs_same_name (take k ?file) = Some Dir"
  proof (intro allI impI)
    fix k assume "length [''src''] \<le> k \<and> k < length ?file"
    then have "k = 1 \<or> k = 2" by auto
    then show "map_of fs_same_name (take k ?file) = Some Dir"
      by (auto simp: fs_same_name_def)
  qed
  have h4: "map_of fs_same_name ?file = Some (File ''other'')"
    by (simp add: fs_same_name_def)
  have h5: "path_name ?file = ''a'' @ CHR ''.'' # ''txt''"
    by (simp add: path_name_def)
  have h6: "CHR ''.'' \<notin> set ''txt''" by simp
  have h7: "''txt'' = (if ''a'' \<noteq> [] \<and> ''txt'' \<noteq> [] then ''txt'' else [])" by simp
  have h8: "[''dest'', ''txt'', ''a.txt''] = joinpath (joinpath [''dest''] ''txt'') (path_name ?file)"
    by (simp add: joinpath_def path_name_def)
  have h9: "map_of fs_same_name (joinpath [''dest''] ''txt'') = None
            \<or> map_of fs_same_name (joinpath [''dest''] ''txt'') = Some Dir"
    by (simp add: fs_same_name_def joinpath_def)
  have h9': "map_of fs_same_name (joinpath [''dest''] ''txt'') = None"
    by (simp add: fs_same_name_def joinpath_def)
  have h10: "main [''src''] [''dest''] fs_same_name = (?fs', ?log)"
    by code_simp
  have ex: "exists_path (fs_at_turn [''src''] [''dest''] fs_same_name 1) [''dest'', ''txt'', ''a.txt'']"
    unfolding turn_same_name by (simp add: exists_path_def)
  show ?thesis
    using h1 h2 h4 h5 h9' listing_same_name ex
      main_copies_by_extension [OF h1 h2 h3 h4 h5 h6 h7 h8 h9 h10]
    by (simp add: h10)
qed

text \<open>
  The claim as first stated, for every file and every state of the destination,
  does not hold. A file whose name has no dot is not listed by \<open>rglob("*.*")\<close>:
  the run changes nothing and logs nothing. Without the destination folder, and
  with a regular file or a named pipe in the place of the folder of the
  extension, \<open>mkdir\<close> raises, the error is logged and nothing is copied.
\<close>

theorem main_leaves_files_uncopied:
  "map_of fs_readme [''src'', ''README''] = Some (File ''hello'')
   \<and> main [''src''] [''dest''] fs_readme = (fs_readme, [])
   \<and> main [''src''] [''dest''] fs_no_dest
       = (fs_no_dest, [Error_copying [''src'', ''a.txt''] FileNotFoundError])
   \<and> main [''src''] [''dest''] fs_txt_taken
       = (fs_txt_taken, [Error_copying [''src'', ''a.txt''] FileExistsError])
   \<and> main [''src''] [''dest''] fs_txt_pipe
       = (fs_txt_pipe, [Error_copying [''src'', ''a.txt''] FileExistsError])"
proof -
  have "map_of fs_readme [''src'', ''README''] = Some (File ''hello'')"
    by (simp add: fs_readme_def)
  moreover have "main [''src''] [''dest''] fs_readme = (fs_readme, [])"
    by code_simp
  moreover have "main [''src''] [''dest''] fs_no_dest
       = (fs_no_dest, [Error_copying [''src'', ''a.txt''] FileNotFoundError])"
    by code_simp
  moreover have "main [''src''] [''dest''] fs_txt_taken
       = (fs_txt_taken, [Error_copying [''src'', ''a.txt''] FileExistsError])"
    by code_simp
  moreover have "main [''src''] [''dest''] fs_txt_pipe
       = (fs_txt_pipe, [Error_copying [''src'', ''a.txt''] FileExistsError])"
    by code_simp
  ultimately show ?thesis by simp
qed

end
